theory Spec2Isabelle
  imports Main "HOL-Library.Product_Lexorder" "HOL-Library.Char_ord" "HOL-Library.List_Lexorder"
begin

section \<open>The employee directory of \<^verbatim>\<open>main.py\<close>\<close>

text \<open>
  The program keeps a table \<^verbatim>\<open>employees\<close> in PostgreSQL and offers six command-line
  modes over it. This theory embeds the record model, the full-name parser, the
  insert statements with their \<^verbatim>\<open>ON CONFLICT ... DO NOTHING\<close> clause, the batched
  loader, the synthetic generator and the benchmark query.

  Conventions of the embedding:
  \<^item> a Python \<^verbatim>\<open>str\<close> is a \<open>string\<close>; the model covers the code points below 256;
  \<^item> a Python \<^verbatim>\<open>int\<close> is an \<open>int\<close>;
  \<^item> a raised exception is the \<open>Inl\<close> branch of a sum;
  \<^item> the database session is an explicit state that every statement threads through;
  \<^item> the calls of \<^verbatim>\<open>random\<close> read an explicit sequence of draws;
  \<^item> \<^verbatim>\<open>datetime.date.today()\<close> is a parameter, the same during one run;
  \<^item> console output and the measured time are left out, except the row count and the
    preview that mode 5 prints.
\<close>

subsection \<open>Exceptions\<close>

datatype error =
    ValueError
  | AttributeError
  | KeyError
  | NotNullViolation
  | OperationalError

subsection \<open>Dates and the record model\<close>

text \<open>A \<^verbatim>\<open>datetime.date\<close> value: three integer fields.\<close>

record date =
  year :: int
  month :: int
  day :: int

text \<open>
  The dataclass \<^verbatim>\<open>Employee\<close>. Python does not enforce the annotations of a dataclass,
  so each field may hold \<^verbatim>\<open>None\<close>; that is the \<open>None\<close> of the option type here, and it
  reaches the database as SQL \<^verbatim>\<open>NULL\<close>.
\<close>

record Employee =
  surname :: "string option"
  given_name :: "string option"
  patronymic :: "string option"
  date_of_birth :: "date option"
  gender :: "string option"

text \<open>
  \<^verbatim>\<open>Employee.age(self, today=None)\<close>. The first argument \<open>now\<close> is what
  \<^verbatim>\<open>datetime.date.today()\<close> returns. Reading \<^verbatim>\<open>born.year\<close> of \<^verbatim>\<open>None\<close> raises
  \<^verbatim>\<open>AttributeError\<close>. The comparison of the two pairs is Python's lexicographic
  comparison of tuples.
\<close>

definition age :: "date \<Rightarrow> Employee \<Rightarrow> date option \<Rightarrow> error + int" where
  "age now self today_arg =
     (let today = (case today_arg of None \<Rightarrow> now | Some t \<Rightarrow> t) in
      case date_of_birth self of
        None \<Rightarrow> Inl AttributeError
      | Some born \<Rightarrow>
          (let years = year today - year born in
           if (month today, day today) < (month born, day born)
           then Inr (years - 1)
           else Inr years))"

definition to_tuple ::
  "Employee \<Rightarrow> string option \<times> string option \<times> string option \<times> date option \<times> string option" where
  "to_tuple self =
     (surname self, given_name self, patronymic self, date_of_birth self, gender self)"

subsection \<open>Splitting a full name\<close>

text \<open>
  \<^verbatim>\<open>str.isspace\<close> on one character, for the code points below 256: tab to carriage
  return, the four separators 28 to 31, the space, NEL (133) and the no-break space (160).
\<close>

definition isspace :: "char \<Rightarrow> bool" where
  "isspace c =
     (let n = (of_char c :: nat) in
      (9 \<le> n \<and> n \<le> 13) \<or> (28 \<le> n \<and> n \<le> 32) \<or> n = 133 \<or> n = 160)"

text \<open>\<^verbatim>\<open>str.strip()\<close>: whitespace removed at both ends.\<close>

definition strip :: "string \<Rightarrow> string" where
  "strip s = rev (dropWhile isspace (rev (dropWhile isspace s)))"

text \<open>
  \<^verbatim>\<open>str.split()\<close> without a separator: skip a run of whitespace, take the run of other
  characters that follows as one token, repeat until the string ends.
\<close>

function split :: "string \<Rightarrow> string list" where
  "split s =
     (case dropWhile isspace s of
        [] \<Rightarrow> []
      | c # cs \<Rightarrow>
          takeWhile (\<lambda>x. \<not> isspace x) (c # cs) # split (dropWhile (\<lambda>x. \<not> isspace x) cs))"
  by pat_completeness auto
termination
proof (relation "measure length")
  show "wf (measure length)" by simp
next
  fix s :: string and c cs
  assume a: "dropWhile isspace s = c # cs"
  have "length (dropWhile (\<lambda>x. \<not> isspace x) cs) \<le> length cs"
    by (rule length_dropWhile_le)
  moreover have "length (c # cs) \<le> length s"
    using length_dropWhile_le [of isspace s] a by simp
  ultimately show "(dropWhile (\<lambda>x. \<not> isspace x) cs, s) \<in> measure length"
    by simp
qed

declare split.simps [simp del]

text \<open>\<^verbatim>\<open>sep.join(parts)\<close>.\<close>

fun join :: "string \<Rightarrow> string list \<Rightarrow> string" where
  "join sep [] = []"
| "join sep [x] = x"
| "join sep (x # y # ys) = x @ sep @ join sep (y # ys)"

text \<open>
  \<^verbatim>\<open>parse_fullname\<close>. The indices read are below the length that the branch has
  tested, and \<^verbatim>\<open>parts[2:]\<close> is \<open>drop 2 parts\<close>.
\<close>

definition parse_fullname :: "string \<Rightarrow> error + (string \<times> string \<times> string)" where
  "parse_fullname fullname =
     (let parts = split (strip fullname) in
      if length parts = 3 then Inr (parts ! 0, parts ! 1, parts ! 2)
      else if length parts = 2 then Inr (parts ! 0, parts ! 1, [])
      else if length parts > 3 then Inr (parts ! 0, parts ! 1, join '' '' (drop 2 parts))
      else Inl ValueError)"

text \<open>
  \<^verbatim>\<open>parse_date\<close> hands the string to the library's \<^verbatim>\<open>strptime\<close> with the format
  \<^verbatim>\<open>%Y-%m-%d\<close>. The library function is a parameter: \<open>None\<close> is its
  \<^verbatim>\<open>ValueError\<close>.
\<close>

definition parse_date :: "(string \<Rightarrow> date option) \<Rightarrow> string \<Rightarrow> error + date" where
  "parse_date strptime datestr =
     (case strptime datestr of None \<Rightarrow> Inl ValueError | Some d \<Rightarrow> Inr d)"

subsection \<open>The table and the session\<close>

text \<open>
  A stored row of \<^verbatim>\<open>employees\<close>. Every column is \<^verbatim>\<open>NOT NULL\<close>, so a stored row has
  five values. The columns \<^verbatim>\<open>id\<close> and \<^verbatim>\<open>created_at\<close> are filled by the server and no
  statement of the program reads them; they are left out.
\<close>

record row =
  row_surname :: string
  row_given_name :: string
  row_patronymic :: string
  row_date_of_birth :: date
  row_gender :: string

text \<open>The columns of the \<^verbatim>\<open>UNIQUE\<close> constraint, the target of \<^verbatim>\<open>ON CONFLICT\<close>.\<close>

definition identity_key :: "row \<Rightarrow> string \<times> string \<times> string \<times> date" where
  "identity_key r = (row_surname r, row_given_name r, row_patronymic r, row_date_of_birth r)"

type_synonym params =
  "string option \<times> string option \<times> string option \<times> date option \<times> string option"

text \<open>
  A session, as \<^verbatim>\<open>get_conn()\<close> returns it and the statements change it:
  \<^item> \<open>committed\<close>: the rows that are durable;
  \<^item> \<open>working\<close>: the rows as the open transaction sees them;
  \<^item> \<open>statements\<close>: the insert statements sent so far, each with its argument tuples;
  \<^item> \<open>budget\<close>: how many more statements the server answers before the connection
    is lost (\<open>None\<close>: it is never lost).
\<close>

record conn =
  committed :: "row list"
  working :: "row list"
  statements :: "params list list"
  budget :: "nat option"

definition get_conn :: "row list \<Rightarrow> nat option \<Rightarrow> conn" where
  "get_conn table faults =
     \<lparr>committed = table, working = table, statements = [], budget = faults\<rparr>"

definition commit :: "conn \<Rightarrow> conn" where
  "commit c = c\<lparr>committed := working c\<rparr>"

text \<open>The \<^verbatim>\<open>NOT NULL\<close> check of one tuple of arguments.\<close>

fun not_null :: "params \<Rightarrow> row option" where
  "not_null (Some s, Some g, Some p, Some d, Some x) =
     Some \<lparr>row_surname = s, row_given_name = g, row_patronymic = p,
           row_date_of_birth = d, row_gender = x\<rparr>"
| "not_null _ = None"

text \<open>
  \<^verbatim>\<open>INSERT ... VALUES ... ON CONFLICT (surname, given_name, patronymic, date_of_birth)
  DO NOTHING\<close> on a table: the tuples are taken in order; a \<^verbatim>\<open>NULL\<close> fails the
  statement; a tuple whose key is in the table, or was inserted earlier by the same
  statement, is skipped; any other tuple is appended.
\<close>

fun insert_rows :: "row list \<Rightarrow> params list \<Rightarrow> error + row list" where
  "insert_rows table [] = Inr table"
| "insert_rows table (p # ps) =
     (case not_null p of
        None \<Rightarrow> Inl NotNullViolation
      | Some r \<Rightarrow>
          insert_rows
            (if identity_key r \<in> set (map identity_key table) then table else table @ [r])
            ps)"

text \<open>
  One insert statement on a session (\<^verbatim>\<open>cur.execute\<close> with one tuple in \<^verbatim>\<open>save\<close>,
  \<^verbatim>\<open>execute_values\<close> with one page in \<^verbatim>\<open>bulk_insert\<close>). A statement that fails raises,
  and the server discards the open transaction.
\<close>

definition execute_insert :: "conn \<Rightarrow> params list \<Rightarrow> (error + unit) \<times> conn" where
  "execute_insert c ps =
     (let c1 = c\<lparr>statements := statements c @ [ps]\<rparr> in
      if budget c = Some 0 then (Inl OperationalError, c1\<lparr>working := committed c\<rparr>)
      else
        (let c2 = c1\<lparr>budget := map_option (\<lambda>n. n - 1) (budget c)\<rparr> in
         case insert_rows (working c) ps of
           Inl e \<Rightarrow> (Inl e, c2\<lparr>working := committed c\<rparr>)
         | Inr table \<Rightarrow> (Inr (), c2\<lparr>working := table\<rparr>)))"

text \<open>\<^verbatim>\<open>Employee.save\<close>: one statement, then the commit.\<close>

definition save :: "Employee \<Rightarrow> conn \<Rightarrow> (error + unit) \<times> conn" where
  "save self c =
     (case execute_insert c [to_tuple self] of
        (Inl e, c') \<Rightarrow> (Inl e, c')
      | (Inr u, c') \<Rightarrow> (Inr (), commit c'))"

subsection \<open>The batched loader\<close>

definition BATCH_SIZE :: int where
  "BATCH_SIZE = 10000"

text \<open>
  \<^verbatim>\<open>range(start, stop, step)\<close> as the list of its values; a zero step raises
  \<^verbatim>\<open>ValueError\<close>.
\<close>

definition range3 :: "int \<Rightarrow> int \<Rightarrow> int \<Rightarrow> error + int list" where
  "range3 start stop step =
     (if step = 0 then Inl ValueError
      else if 0 < step then
        Inr (map (\<lambda>k. start + int k * step) [0 ..< nat ((stop - start + step - 1) div step)])
      else
        Inr (map (\<lambda>k. start + int k * step) [0 ..< nat ((start - stop - step - 1) div (- step))]))"

text \<open>
  The slice \<^verbatim>\<open>xs[i:j]\<close>: a negative bound counts from the end, and both bounds are
  clipped to the list.
\<close>

definition slice :: "'a list \<Rightarrow> int \<Rightarrow> int \<Rightarrow> 'a list" where
  "slice xs i j =
     (let n = int (length xs);
          lo = (if i < 0 then max 0 (i + n) else min i n);
          hi = (if j < 0 then max 0 (j + n) else min j n)
      in take (nat (hi - lo)) (drop (nat lo) xs))"

text \<open>
  The body of the \<^verbatim>\<open>for\<close> loop of \<^verbatim>\<open>bulk_insert\<close> over the start indices. Each slice
  has at most \<^verbatim>\<open>batch_size\<close> tuples and \<^verbatim>\<open>page_size\<close> is \<^verbatim>\<open>batch_size\<close>, so
  \<^verbatim>\<open>execute_values\<close> sends it as one statement. An exception leaves the loop.
\<close>

fun insert_batches :: "conn \<Rightarrow> params list \<Rightarrow> int \<Rightarrow> int list \<Rightarrow> (error + unit) \<times> conn" where
  "insert_batches c tuples batch_size [] = (Inr (), c)"
| "insert_batches c tuples batch_size (i # starts) =
     (case execute_insert c (slice tuples i (i + batch_size)) of
        (Inl e, c') \<Rightarrow> (Inl e, c')
      | (Inr u, c') \<Rightarrow> insert_batches c' tuples batch_size starts)"

text \<open>
  \<^verbatim>\<open>Employee.bulk_insert\<close>. The commit stands after the loop: it runs once, when every
  batch has been sent.
\<close>

definition bulk_insert :: "conn \<Rightarrow> Employee list \<Rightarrow> int \<Rightarrow> (error + unit) \<times> conn" where
  "bulk_insert c employees batch_size =
     (let tuples = map to_tuple employees in
      case range3 0 (int (length tuples)) batch_size of
        Inl e \<Rightarrow> (Inl e, c)
      | Inr starts \<Rightarrow>
          (case insert_batches c tuples batch_size starts of
             (Inl e, c') \<Rightarrow> (Inl e, c')
           | (Inr u, c') \<Rightarrow> (Inr (), commit c')))"

text \<open>
  \<^verbatim>\<open>mode_insert_single\<close>. The argument \<open>c\<close> is the session that \<^verbatim>\<open>get_conn()\<close> opens
  once both arguments have been parsed; when parsing raises, no session is opened and
  \<open>c\<close> is returned as it was.
\<close>

definition mode_insert_single ::
  "(string \<Rightarrow> date option) \<Rightarrow> conn \<Rightarrow> string \<Rightarrow> string \<Rightarrow> string \<Rightarrow> (error + unit) \<times> conn" where
  "mode_insert_single strptime c fullname dob_str gender_arg =
     (case parse_fullname fullname of
        Inl e \<Rightarrow> (Inl e, c)
      | Inr (sn, given, patr) \<Rightarrow>
          (case parse_date strptime dob_str of
             Inl e \<Rightarrow> (Inl e, c)
           | Inr dob \<Rightarrow>
               save \<lparr>surname = Some sn, given_name = Some given, patronymic = Some patr,
                     date_of_birth = Some dob, gender = Some gender_arg\<rparr> c))"

text \<open>
  The partition that the specification describes: consecutive chunks of \<open>b\<close> elements,
  the last one possibly shorter. It is compared below with the slices that the loop of
  \<^verbatim>\<open>bulk_insert\<close> takes.
\<close>

fun chunks :: "nat \<Rightarrow> 'a list \<Rightarrow> 'a list list" where
  "chunks b xs = (if b = 0 \<or> xs = [] then [] else take b xs # chunks b (drop b xs))"

declare chunks.simps [simp del]

subsection \<open>Sample records\<close>

text \<open>Four records for the concrete runs below; the third has no surname.\<close>

definition sample_a :: Employee where
  "sample_a = \<lparr>surname = Some ''Ivanov'', given_name = Some ''Petr'',
     patronymic = Some ''Sergeevich'',
     date_of_birth = Some \<lparr>year = 2009, month = 7, day = 12\<rparr>, gender = Some ''Male''\<rparr>"

definition sample_b :: Employee where
  "sample_b = \<lparr>surname = Some ''Fedorova'', given_name = Some ''Anna'',
     patronymic = Some ''Igorevna'',
     date_of_birth = Some \<lparr>year = 1990, month = 2, day = 3\<rparr>, gender = Some ''Female''\<rparr>"

definition sample_null :: Employee where
  "sample_null = \<lparr>surname = None, given_name = Some ''Oleg'',
     patronymic = Some ''Romanovich'',
     date_of_birth = Some \<lparr>year = 1985, month = 11, day = 30\<rparr>, gender = Some ''Male''\<rparr>"

definition sample_a_other_gender :: Employee where
  "sample_a_other_gender = sample_a\<lparr>gender := Some ''Female''\<rparr>"

text \<open>A stand-in for \<^verbatim>\<open>strptime\<close> in the concrete runs: it knows one date.\<close>

definition sample_strptime :: "string \<Rightarrow> date option" where
  "sample_strptime s =
     (if s = ''2009-07-12'' then Some \<lparr>year = 2009, month = 7, day = 12\<rparr> else None)"

section \<open>Properties\<close>

subsection \<open>Age\<close>

text \<open>
  Claim C8. For every date of birth and every reference date, \<open>age\<close> is the reference
  year minus the birth year, less one exactly when the reference (month, day) comes
  before the birth (month, day) in lexicographic order. Born 2000-07-12, the age is 23
  on 2024-07-11 and 24 on 2024-07-12. Without a reference date the current date is used.
\<close>

theorem age_year_difference_with_correction:
  "age now (self\<lparr>date_of_birth := Some born\<rparr>) (Some ref) =
     Inr (year ref - year born -
          (if month ref < month born \<or> (month ref = month born \<and> day ref < day born)
           then 1 else 0))
   \<and> age now (self\<lparr>date_of_birth := Some born\<rparr>) None =
       age now (self\<lparr>date_of_birth := Some born\<rparr>) (Some now)
   \<and> age now (self\<lparr>date_of_birth := Some \<lparr>year = 2000, month = 7, day = 12\<rparr>\<rparr>)
         (Some \<lparr>year = 2024, month = 7, day = 11\<rparr>) = Inr 23
   \<and> age now (self\<lparr>date_of_birth := Some \<lparr>year = 2000, month = 7, day = 12\<rparr>\<rparr>)
         (Some \<lparr>year = 2024, month = 7, day = 12\<rparr>) = Inr 24"
  by (auto simp: age_def Let_def less_prod_def)

subsection \<open>Full names\<close>

lemma takeWhile_append_all:
  "\<forall>x\<in>set ws. P x \<Longrightarrow> takeWhile (\<lambda>x. \<not> P x) (cs @ ws) = takeWhile (\<lambda>x. \<not> P x) cs"
proof (induction cs)
  case Nil
  then show ?case by (cases ws) auto
next
  case (Cons a cs)
  then show ?case by simp
qed

lemma dropWhile_append_all:
  "\<forall>x\<in>set ws. P x \<Longrightarrow> dropWhile (\<lambda>x. \<not> P x) (cs @ ws) = dropWhile (\<lambda>x. \<not> P x) cs @ ws"
proof (induction cs)
  case Nil
  then show ?case by (cases ws) auto
next
  case (Cons a cs)
  then show ?case by simp
qed

lemma split_Nil: "dropWhile isspace s = [] \<Longrightarrow> split s = []"
  by (subst split.simps) (simp only: list.case)

lemma split_Cons:
  "dropWhile isspace s = c # cs \<Longrightarrow>
   split s = takeWhile (\<lambda>x. \<not> isspace x) (c # cs) # split (dropWhile (\<lambda>x. \<not> isspace x) cs)"
  by (subst split.simps) (simp only: list.case)

lemma dropWhile_Cons_head: "dropWhile P s = c # cs \<Longrightarrow> \<not> P c"
  using hd_dropWhile [of P s] by auto

lemma split_append_spaces:
  "\<forall>x\<in>set ws. isspace x \<Longrightarrow> split (s @ ws) = split s"
proof (induction s rule: split.induct)
  case (1 s)
  show ?case
  proof (cases "dropWhile isspace s")
    case Nil
    with 1(2) have "dropWhile isspace (s @ ws) = []" by simp
    with Nil show ?thesis by (simp only: split_Nil)
  next
    case (Cons c cs)
    then have "\<exists>x\<in>set s. \<not> isspace x"
      using dropWhile_eq_Nil_conv [of isspace s] by auto
    then obtain x where "x \<in> set s" "\<not> isspace x" by blast
    then have "dropWhile isspace (s @ ws) = dropWhile isspace s @ ws"
      by (rule dropWhile_append1)
    then have d: "dropWhile isspace (s @ ws) = c # (cs @ ws)"
      using Cons by simp
    have t: "takeWhile (\<lambda>x. \<not> isspace x) (c # cs @ ws) = takeWhile (\<lambda>x. \<not> isspace x) (c # cs)"
      using takeWhile_append_all [OF 1(2), of "c # cs"] by simp
    have dd: "dropWhile (\<lambda>x. \<not> isspace x) (cs @ ws) = dropWhile (\<lambda>x. \<not> isspace x) cs @ ws"
      by (rule dropWhile_append_all [OF 1(2)])
    have ih: "split (dropWhile (\<lambda>x. \<not> isspace x) cs @ ws) = split (dropWhile (\<lambda>x. \<not> isspace x) cs)"
      using 1(1) [OF Cons 1(2)] .
    show ?thesis
      by (simp only: split_Cons [OF d] split_Cons [OF Cons] t dd ih)
  qed
qed

lemma split_dropWhile: "split (dropWhile isspace s) = split s"
proof (cases "dropWhile isspace s")
  case Nil
  then show ?thesis by (simp only: split_Nil dropWhile.simps)
next
  case (Cons c cs)
  have d: "dropWhile isspace (dropWhile isspace s) = c # cs"
    using Cons dropWhile_Cons_head [OF Cons] by simp
  show ?thesis by (simp only: split_Cons [OF Cons] split_Cons [OF d])
qed

lemma split_strip: "split (strip s) = split s"
proof -
  let ?t = "dropWhile isspace s"
  have "rev ?t = takeWhile isspace (rev ?t) @ dropWhile isspace (rev ?t)"
    by simp
  then have "rev (rev ?t) = rev (takeWhile isspace (rev ?t) @ dropWhile isspace (rev ?t))"
    by (rule arg_cong)
  then have e: "?t = rev (dropWhile isspace (rev ?t)) @ rev (takeWhile isspace (rev ?t))"
    by (simp only: rev_rev_ident rev_append)
  have "\<forall>x\<in>set (rev (takeWhile isspace (rev ?t))). isspace x"
    by (auto dest: set_takeWhileD)
  then have "split (rev (dropWhile isspace (rev ?t)) @ rev (takeWhile isspace (rev ?t)))
      = split (rev (dropWhile isspace (rev ?t)))"
    by (rule split_append_spaces)
  with e have "split ?t = split (rev (dropWhile isspace (rev ?t)))" by simp
  then show ?thesis by (simp add: strip_def split_dropWhile)
qed

lemma split_tokens:
  "t \<in> set (split s) \<Longrightarrow> t \<noteq> [] \<and> (\<forall>x\<in>set t. \<not> isspace x)"
proof (induction s rule: split.induct)
  case (1 s)
  show ?case
  proof (cases "dropWhile isspace s")
    case Nil
    have "split s = []" by (rule split_Nil [OF Nil])
    with 1(2) show ?thesis by simp
  next
    case (Cons c cs)
    have nc: "\<not> isspace c" by (rule dropWhile_Cons_head [OF Cons])
    let ?tok = "takeWhile (\<lambda>x. \<not> isspace x) (c # cs)"
    let ?rest = "dropWhile (\<lambda>x. \<not> isspace x) cs"
    have e: "split s = ?tok # split ?rest" by (rule split_Cons [OF Cons])
    have "t \<in> set (?tok # split ?rest)" using 1(2) by (simp only: e)
    then have "t = ?tok \<or> t \<in> set (split ?rest)" by simp
    then show ?thesis
    proof
      assume t: "t = ?tok"
      have "?tok \<noteq> []" using nc by simp
      moreover have "\<forall>x\<in>set ?tok. \<not> isspace x" by (blast dest: set_takeWhileD)
      ultimately show ?thesis unfolding t by (rule conjI)
    next
      assume "t \<in> set (split ?rest)"
      then show ?thesis by (rule 1(1) [OF Cons])
    qed
  qed
qed

lemma split_concat: "concat (split s) = filter (\<lambda>x. \<not> isspace x) s"
proof (induction s rule: split.induct)
  case (1 s)
  have pre: "filter (\<lambda>x. \<not> isspace x) s = filter (\<lambda>x. \<not> isspace x) (dropWhile isspace s)"
    by (induction s) auto
  show ?case
  proof (cases "dropWhile isspace s")
    case Nil
    with pre show ?thesis by (simp only: split_Nil) simp
  next
    case (Cons c cs)
    have nc: "\<not> isspace c" by (rule dropWhile_Cons_head [OF Cons])
    have f2: "filter (\<lambda>x. \<not> isspace x) cs =
        takeWhile (\<lambda>x. \<not> isspace x) cs @ filter (\<lambda>x. \<not> isspace x) (dropWhile (\<lambda>x. \<not> isspace x) cs)"
      by (induction cs) auto
    have "concat (split s) = takeWhile (\<lambda>x. \<not> isspace x) (c # cs) @
        concat (split (dropWhile (\<lambda>x. \<not> isspace x) cs))"
      by (simp only: split_Cons [OF Cons] concat.simps)
    also have "\<dots> = c # takeWhile (\<lambda>x. \<not> isspace x) cs @
        filter (\<lambda>x. \<not> isspace x) (dropWhile (\<lambda>x. \<not> isspace x) cs)"
      using nc 1(1) [OF Cons] by simp
    also have "\<dots> = filter (\<lambda>x. \<not> isspace x) (c # cs)"
      using nc f2 by simp
    finally show ?thesis using pre Cons by simp
  qed
qed

lemma split_token_space:
  assumes "t \<noteq> []" "\<forall>x\<in>set t. \<not> isspace x" "isspace w"
  shows "split (t @ w # rest) = t # split rest"
proof -
  obtain c cs where t: "t = c # cs" using assms(1) by (cases t) auto
  have d: "dropWhile isspace (t @ w # rest) = c # (cs @ w # rest)" using t assms(2) by simp
  have tk: "takeWhile (\<lambda>x. \<not> isspace x) (c # (cs @ w # rest)) = c # cs"
    using t assms(2,3) by (simp add: takeWhile_tail)
  have dr: "dropWhile (\<lambda>x. \<not> isspace x) (cs @ w # rest) = w # rest"
    using t assms(2,3) by (simp add: dropWhile_append2)
  have "dropWhile isspace (w # rest) = dropWhile isspace rest" using assms(3) by simp
  then have "split (dropWhile isspace (w # rest)) = split (dropWhile isspace rest)" by simp
  then have r: "split (w # rest) = split rest"
    by (simp only: split_dropWhile)
  have "split (t @ w # rest) = takeWhile (\<lambda>x. \<not> isspace x) (c # (cs @ w # rest)) #
      split (dropWhile (\<lambda>x. \<not> isspace x) (cs @ w # rest))"
    by (rule split_Cons [OF d])
  then show ?thesis
    by (simp only: tk dr r t)
qed

lemma split_token:
  assumes "t \<noteq> []" "\<forall>x\<in>set t. \<not> isspace x"
  shows "split t = [t]"
proof -
  obtain c cs where t: "t = c # cs" using assms(1) by (cases t) auto
  have d: "dropWhile isspace t = c # cs" using t assms(2) by simp
  have tk: "takeWhile (\<lambda>x. \<not> isspace x) (c # cs) = c # cs" using t assms(2) by simp
  have dr: "dropWhile (\<lambda>x. \<not> isspace x) cs = []" using t assms(2) by simp
  have r: "split [] = []" by (rule split_Nil) simp
  have "split t = takeWhile (\<lambda>x. \<not> isspace x) (c # cs) # split (dropWhile (\<lambda>x. \<not> isspace x) cs)"
    by (rule split_Cons [OF d])
  then show ?thesis by (simp only: tk dr r t)
qed

lemma split_join:
  "\<forall>t\<in>set ts. t \<noteq> [] \<and> (\<forall>x\<in>set t. \<not> isspace x) \<Longrightarrow> split (join '' '' ts) = ts"
proof (induction ts)
  case Nil
  show ?case by (simp add: split_Nil)
next
  case (Cons x ys)
  show ?case
  proof (cases ys)
    case Nil
    with Cons(2) show ?thesis by (simp add: split_token)
  next
    case (Cons y zs)
    have sp: "isspace CHR '' ''" by (simp add: isspace_def)
    have "split (x @ CHR '' '' # join '' '' ys) = x # split (join '' '' ys)"
      using Cons.prems sp by (intro split_token_space) auto
    then show ?thesis using Cons Cons.IH Cons.prems by simp
  qed
qed


lemma parse_fullname_split:
  "parse_fullname fullname =
     (let parts = split fullname in
      if length parts = 3 then Inr (parts ! 0, parts ! 1, parts ! 2)
      else if length parts = 2 then Inr (parts ! 0, parts ! 1, [])
      else if length parts > 3 then Inr (parts ! 0, parts ! 1, join '' '' (drop 2 parts))
      else Inl ValueError)"
  by (simp only: parse_fullname_def split_strip)

text \<open>
  Claim C7. \<open>parse_fullname\<close> splits its argument on whitespace. Two tokens give the
  surname, the given name and an empty patronymic; three tokens are taken in order; with
  more than three, the first two are surname and given name and the others, joined by
  single spaces, are the patronymic; fewer than two tokens raise \<^verbatim>\<open>ValueError\<close>, and
  \<open>mode_insert_single\<close> then ends before a statement is sent. The tokens are the
  non-empty runs without whitespace, in order, and splitting undoes joining. The four
  examples of the specification are included.
\<close>

theorem parse_fullname_by_token_count:
  "(split fullname = [s, g] \<longrightarrow> parse_fullname fullname = Inr (s, g, []))
   \<and> (split fullname = [s, g, p] \<longrightarrow> parse_fullname fullname = Inr (s, g, p))
   \<and> (split fullname = s # g # rest \<and> 1 < length rest \<longrightarrow>
        parse_fullname fullname = Inr (s, g, join '' '' rest))
   \<and> (length (split fullname) < 2 \<longrightarrow>
        parse_fullname fullname = Inl ValueError
        \<and> mode_insert_single strptime c fullname dob_str gender_arg = (Inl ValueError, c))
   \<and> (\<forall>t\<in>set (split fullname). t \<noteq> [] \<and> (\<forall>x\<in>set t. \<not> isspace x))
   \<and> concat (split fullname) = filter (\<lambda>x. \<not> isspace x) fullname
   \<and> ((\<forall>t\<in>set ts. t \<noteq> [] \<and> (\<forall>x\<in>set t. \<not> isspace x)) \<longrightarrow> split (join '' '' ts) = ts)
   \<and> parse_fullname ''Ivanov Petr Sergeevich'' = Inr (''Ivanov'', ''Petr'', ''Sergeevich'')
   \<and> parse_fullname ''Ivanov Petr'' = Inr (''Ivanov'', ''Petr'', [])
   \<and> parse_fullname ''Ivanov Petr De La Cruz'' = Inr (''Ivanov'', ''Petr'', ''De La Cruz'')
   \<and> parse_fullname ''Ivanov'' = Inl ValueError"
proof -
  have two: "split fullname = [s, g] \<longrightarrow> parse_fullname fullname = Inr (s, g, [])"
    by (simp add: parse_fullname_split)
  have three: "split fullname = [s, g, p] \<longrightarrow> parse_fullname fullname = Inr (s, g, p)"
    by (simp add: parse_fullname_split)
  have more: "split fullname = s # g # rest \<and> 1 < length rest \<longrightarrow>
        parse_fullname fullname = Inr (s, g, join '' '' rest)"
    by (auto simp: parse_fullname_split Let_def)
  have few: "length (split fullname) < 2 \<longrightarrow>
        parse_fullname fullname = Inl ValueError
        \<and> mode_insert_single strptime c fullname dob_str gender_arg = (Inl ValueError, c)"
    by (simp add: parse_fullname_split mode_insert_single_def)
  have toks: "\<forall>t\<in>set (split fullname). t \<noteq> [] \<and> (\<forall>x\<in>set t. \<not> isspace x)"
    using split_tokens by blast
  have rt: "(\<forall>t\<in>set ts. t \<noteq> [] \<and> (\<forall>x\<in>set t. \<not> isspace x)) \<longrightarrow> split (join '' '' ts) = ts"
    using split_join by blast
  have e1: "parse_fullname ''Ivanov Petr Sergeevich'' = Inr (''Ivanov'', ''Petr'', ''Sergeevich'')"
    by code_simp
  have e2: "parse_fullname ''Ivanov Petr'' = Inr (''Ivanov'', ''Petr'', [])"
    by code_simp
  have e3: "parse_fullname ''Ivanov Petr De La Cruz'' = Inr (''Ivanov'', ''Petr'', ''De La Cruz'')"
    by code_simp
  have e4: "parse_fullname ''Ivanov'' = Inl ValueError"
    by code_simp
  show ?thesis
    by (intro conjI two three more few toks split_concat rt e1 e2 e3 e4)
qed

theorem parse_fullname_by_token_count_witness:
  "split ''Ivanov  Petr'' = [''Ivanov'', ''Petr'']
   \<and> parse_fullname ''Ivanov  Petr'' = Inr (''Ivanov'', ''Petr'', [])
   \<and> split ''Li Na Mei'' = [''Li'', ''Na'', ''Mei'']
   \<and> parse_fullname ''Li Na Mei'' = Inr (''Li'', ''Na'', ''Mei'')
   \<and> split ''A B C D'' = ''A'' # ''B'' # [''C'', ''D'']
   \<and> 1 < length [''C'', ''D'']
   \<and> parse_fullname ''A B C D'' = Inr (''A'', ''B'', join '' '' [''C'', ''D''])
   \<and> length (split '' Ivanov '') < 2
   \<and> parse_fullname '' Ivanov '' = Inl ValueError
   \<and> mode_insert_single (\<lambda>x. None) (get_conn [] None) '' Ivanov '' ''2009-07-12'' ''Male''
        = (Inl ValueError, get_conn [] None)
   \<and> split (join '' '' [''De'', ''La'', ''Cruz'']) = [''De'', ''La'', ''Cruz'']"
proof -
  have h2: "split ''Ivanov  Petr'' = [''Ivanov'', ''Petr'']" by code_simp
  have h3: "split ''Li Na Mei'' = [''Li'', ''Na'', ''Mei'']" by code_simp
  have h4: "split ''A B C D'' = ''A'' # ''B'' # [''C'', ''D''] \<and> 1 < length [''C'', ''D'']"
    by code_simp
  have h1: "length (split '' Ivanov '') < 2" by code_simp
  have hj: "\<forall>t\<in>set [''De'', ''La'', ''Cruz'']. t \<noteq> [] \<and> (\<forall>x\<in>set t. \<not> isspace x)"
    by code_simp
  note T = parse_fullname_by_token_count
    [of _ _ _ _ _ "\<lambda>x. None" "get_conn [] None" "''2009-07-12''" "''Male''"
        "[''De'', ''La'', ''Cruz'']"]
  note T2 = T [of "''Ivanov  Petr''" "''Ivanov''" "''Petr''" "[]" "[]"]
  note T3 = T [of "''Li Na Mei''" "''Li''" "''Na''" "''Mei''" "[]"]
  note T4 = T [of "''A B C D''" "''A''" "''B''" "[]" "[''C'', ''D'']"]
  note T1 = T [of "'' Ivanov ''" "[]" "[]" "[]" "[]"]
  have w2: "parse_fullname ''Ivanov  Petr'' = Inr (''Ivanov'', ''Petr'', [])"
    by (rule mp [OF T2 [THEN conjunct1] h2])
  have w3: "parse_fullname ''Li Na Mei'' = Inr (''Li'', ''Na'', ''Mei'')"
    by (rule mp [OF T3 [THEN conjunct2, THEN conjunct1] h3])
  have w4: "parse_fullname ''A B C D'' = Inr (''A'', ''B'', join '' '' [''C'', ''D''])"
    by (rule mp [OF T4 [THEN conjunct2, THEN conjunct2, THEN conjunct1] h4])
  have w1: "parse_fullname '' Ivanov '' = Inl ValueError
      \<and> mode_insert_single (\<lambda>x. None) (get_conn [] None) '' Ivanov '' ''2009-07-12'' ''Male''
        = (Inl ValueError, get_conn [] None)"
    by (rule mp [OF T1 [THEN conjunct2, THEN conjunct2, THEN conjunct2, THEN conjunct1] h1])
  have wj: "split (join '' '' [''De'', ''La'', ''Cruz'']) = [''De'', ''La'', ''Cruz'']"
    by (rule mp [OF T1 [THEN conjunct2, THEN conjunct2, THEN conjunct2, THEN conjunct2,
          THEN conjunct2, THEN conjunct2, THEN conjunct1] hj])
  show ?thesis
    by (intro conjI h2 h3 h4 [THEN conjunct1] h4 [THEN conjunct2] h1 w2 w3 w4
        w1 [THEN conjunct1] w1 [THEN conjunct2] wj)
qed

subsection \<open>Chunks and slices\<close>

lemma chunks_Nil: "chunks b [] = []"
  by (simp add: chunks.simps)

lemma chunks_step: "0 < b \<Longrightarrow> xs \<noteq> [] \<Longrightarrow> chunks b xs = take b xs # chunks b (drop b xs)"
  by (subst chunks.simps) simp

lemma concat_chunks: "0 < b \<Longrightarrow> concat (chunks b xs) = xs"
proof (induction b xs rule: chunks.induct)
  case (1 b xs)
  show ?case
  proof (cases "xs = []")
    case True
    then show ?thesis by (simp add: chunks_Nil)
  next
    case False
    with 1 show ?thesis by (simp add: chunks_step)
  qed
qed

lemma chunks_bounded: "ch \<in> set (chunks b xs) \<Longrightarrow> ch \<noteq> [] \<and> length ch \<le> b"
proof (induction b xs rule: chunks.induct)
  case (1 b xs)
  show ?case
  proof (cases "b = 0 \<or> xs = []")
    case True
    with 1(2) show ?thesis by (simp add: chunks.simps)
  next
    case False
    then have "chunks b xs = take b xs # chunks b (drop b xs)" by (simp add: chunks_step)
    with 1 False show ?thesis by auto
  qed
qed

lemma chunks_single: "length xs \<le> b \<Longrightarrow> length (chunks b xs) \<le> 1"
proof (cases "b = 0 \<or> xs = []")
  case True
  then show ?thesis by (simp add: chunks.simps)
next
  case False
  assume "length xs \<le> b"
  with False show ?thesis by (simp add: chunks_step chunks_Nil)
qed

lemma chunks_map:
  "0 < b \<Longrightarrow> chunks b xs = map (\<lambda>k. take b (drop (k * b) xs)) [0 ..< (length xs + b - 1) div b]"
proof (induction b xs rule: chunks.induct)
  case (1 b xs)
  show ?case
  proof (cases "xs = []")
    case True
    then show ?thesis using 1(2) by (simp add: chunks_Nil)
  next
    case False
    let ?n = "(length xs + b - 1) div b"
    have n: "?n = Suc ((length (drop b xs) + b - 1) div b)"
    proof (cases "b \<le> length xs")
      case True
      then have "length xs + b - 1 = (length xs - b + b - 1) + b" using 1(2) by simp
      then have "?n = (length xs - b + b - 1) div b + 1" using 1(2)
        by (metis div_add_self2 less_numeral_extra(3))
      then show ?thesis by simp
    next
      case False
      have "0 < length xs" using \<open>xs \<noteq> []\<close> by simp
      with False have "b \<le> length xs + b - 1 \<and> length xs + b - 1 < 2 * b"
        by arith
      then have "(length xs + b - 1) div b = 1"
        by (intro div_nat_eqI) auto
      then show ?thesis using False 1(2) by simp
    qed
    have "[0 ..< ?n] = 0 # map Suc [0 ..< (length (drop b xs) + b - 1) div b]"
      by (simp only: n upt_conv_Cons [of 0] map_Suc_upt)
    then have "map (\<lambda>k. take b (drop (k * b) xs)) [0 ..< ?n]
        = take b xs # map (\<lambda>k. take b (drop (k * b) (drop b xs))) [0 ..< (length (drop b xs) + b - 1) div b]"
      by (simp add: comp_def add.commute)
    moreover have "chunks b (drop b xs) = map (\<lambda>k. take b (drop (k * b) (drop b xs))) [0 ..< (length (drop b xs) + b - 1) div b]"
      using 1(1) False 1(2) by simp
    ultimately show ?thesis using False 1(2) by (simp add: chunks_step)
  qed
qed

lemma slice_take_drop:
  assumes "0 \<le> i" "0 < b" "i \<le> int (length xs)"
  shows "slice xs i (i + b) = take (nat b) (drop (nat i) xs)"
proof (cases "i + b \<le> int (length xs)")
  case True
  then have "nat (i + b - i) = nat b" by simp
  with True assms show ?thesis by (simp add: slice_def Let_def min_def)
next
  case False
  then have "length (drop (nat i) xs) \<le> nat b" "length (drop (nat i) xs) \<le> nat (int (length xs) - i)"
    using assms by auto
  then have "take (nat b) (drop (nat i) xs) = drop (nat i) xs"
       "take (nat (int (length xs) - i)) (drop (nat i) xs) = drop (nat i) xs"
    by simp_all
  with False assms show ?thesis by (simp add: slice_def Let_def min_def)
qed

lemma range3_chunks:
  assumes "0 < B" "range3 0 (int (length xs)) B = Inr starts"
  shows "map (\<lambda>i. slice xs i (i + B)) starts = chunks (nat B) xs"
proof -
  let ?b = "nat B"
  have b: "0 < ?b" "int ?b = B" using assms(1) by auto
  have cnt: "nat ((int (length xs) - 0 + B - 1) div B) = (length xs + ?b - 1) div ?b"
  proof -
    have "int (length xs) - 0 + B - 1 = int (length xs + ?b - 1)" using assms(1) by auto
    then have "(int (length xs) - 0 + B - 1) div B = int ((length xs + ?b - 1) div ?b)"
      using b by (simp add: zdiv_int)
    then show ?thesis by simp
  qed
  have st: "starts = map (\<lambda>k. 0 + int k * B) [0 ..< (length xs + ?b - 1) div ?b]"
    using assms cnt by (simp add: range3_def)
  have "map (\<lambda>i. slice xs i (i + B)) starts
      = map (\<lambda>k. slice xs (int k * B) (int k * B + B)) [0 ..< (length xs + ?b - 1) div ?b]"
    by (simp add: st comp_def)
  also have "\<dots> = map (\<lambda>k. take ?b (drop (k * ?b) xs)) [0 ..< (length xs + ?b - 1) div ?b]"
  proof (rule map_cong [OF refl])
    fix k assume "k \<in> set [0 ..< (length xs + ?b - 1) div ?b]"
    then have "k < (length xs + ?b - 1) div ?b" by simp
    then have "Suc k * ?b \<le> ((length xs + ?b - 1) div ?b) * ?b"
      by (simp only: mult_le_mono1 Suc_le_eq)
    also have "\<dots> \<le> length xs + ?b - 1"
      by (rule div_times_less_eq_dividend)
    finally have "k * ?b \<le> length xs" using b(1) by simp
    then have le: "int k * B \<le> int (length xs)" using b(2)
      by (metis of_nat_mult of_nat_le_iff)
    have "nat (int k * B) = k * ?b" using assms(1) by (simp add: nat_mult_distrib)
    then show "slice xs (int k * B) (int k * B + B) = take ?b (drop (k * ?b) xs)"
      using slice_take_drop [of "int k * B" B xs] le assms(1) by simp
  qed
  also have "\<dots> = chunks ?b xs" by (rule chunks_map [OF b(1), symmetric])
  finally show ?thesis .
qed

subsection \<open>Insert statements\<close>

lemma insert_rows_present:
  "\<forall>p\<in>set ps. \<exists>r. not_null p = Some r \<and> identity_key r \<in> set (map identity_key table)
   \<Longrightarrow> insert_rows table ps = Inr table"
  by (induction ps) auto

lemma insert_rows_null:
  "p \<in> set ps \<Longrightarrow> not_null p = None \<Longrightarrow> insert_rows table ps = Inl NotNullViolation"
proof (induction ps arbitrary: table)
  case Nil
  then show ?case by simp
next
  case (Cons q qs)
  show ?case
  proof (cases "not_null q")
    case None
    then show ?thesis by simp
  next
    case (Some r)
    with Cons.prems have "p \<in> set qs" by auto
    then show ?thesis using Cons.IH Cons.prems(2) Some by simp
  qed
qed

lemma insert_rows_error: "insert_rows table ps = Inl e \<Longrightarrow> e = NotNullViolation"
  by (induction ps arbitrary: table) (auto split: option.splits)

lemma insert_rows_keys:
  "insert_rows table ps = Inr table' \<Longrightarrow>
   (\<forall>p\<in>set ps. \<exists>r. not_null p = Some r \<and> identity_key r \<in> set (map identity_key table'))
   \<and> set (map identity_key table) \<subseteq> set (map identity_key table')"
proof (induction ps arbitrary: table)
  case Nil
  then show ?case by simp
next
  case (Cons q qs)
  from Cons.prems obtain r where r: "not_null q = Some r"
    by (cases "not_null q") auto
  let ?t = "if identity_key r \<in> set (map identity_key table) then table else table @ [r]"
  from Cons.prems r have step: "insert_rows ?t qs = Inr table'" by simp
  note ih = Cons.IH [OF step]
  have "identity_key r \<in> set (map identity_key ?t)" by simp
  with ih have "identity_key r \<in> set (map identity_key table')" by blast
  moreover have "set (map identity_key table) \<subseteq> set (map identity_key ?t)" by auto
  ultimately show ?case using ih r by auto
qed

lemma insert_rows_distinct:
  "insert_rows table ps = Inr table' \<Longrightarrow> distinct (map identity_key table)
   \<Longrightarrow> distinct (map identity_key table')"
proof (induction ps arbitrary: table)
  case Nil
  then show ?case by simp
next
  case (Cons q qs)
  from Cons.prems obtain r where r: "not_null q = Some r"
    by (cases "not_null q") auto
  let ?t = "if identity_key r \<in> set (map identity_key table) then table else table @ [r]"
  from Cons.prems r have step: "insert_rows ?t qs = Inr table'" by simp
  have "distinct (map identity_key ?t)" using Cons.prems(2) by simp
  then show ?case by (rule Cons.IH [OF step])
qed

lemma insert_rows_extends:
  "insert_rows table ps = Inr table' \<Longrightarrow>
   \<exists>new. table' = table @ new \<and> (\<forall>r\<in>set new. \<exists>p\<in>set ps. not_null p = Some r)"
proof (induction ps arbitrary: table)
  case Nil
  then show ?case by simp
next
  case (Cons q qs)
  from Cons.prems obtain r where r: "not_null q = Some r"
    by (cases "not_null q") auto
  let ?t = "if identity_key r \<in> set (map identity_key table) then table else table @ [r]"
  from Cons.prems r have step: "insert_rows ?t qs = Inr table'" by simp
  from Cons.IH [OF step] obtain new where
    new: "table' = ?t @ new" "\<forall>x\<in>set new. \<exists>p\<in>set qs. not_null p = Some x" by blast
  show ?case
  proof (cases "identity_key r \<in> set (map identity_key table)")
    case True
    with new show ?thesis by auto
  next
    case False
    with new have "table' = table @ (r # new)" by simp
    moreover have "\<forall>x\<in>set (r # new). \<exists>p\<in>set (q # qs). not_null p = Some x"
      using new(2) r by auto
    ultimately show ?thesis by blast
  qed
qed

lemma execute_insert_committed: "committed (snd (execute_insert c ps)) = committed c"
  by (simp add: execute_insert_def Let_def split: sum.splits)

lemma execute_insert_statements: "statements (snd (execute_insert c ps)) = statements c @ [ps]"
  by (simp add: execute_insert_def Let_def split: sum.splits)

lemma execute_insert_fail:
  "execute_insert c ps = (Inl e, c') \<Longrightarrow> working c' = committed c"
  by (auto simp: execute_insert_def Let_def split: sum.splits if_splits)

lemma execute_insert_ok:
  "execute_insert c ps = (Inr u, c') \<Longrightarrow>
   budget c \<noteq> Some 0 \<and> insert_rows (working c) ps = Inr (working c')
   \<and> budget c' = map_option (\<lambda>n. n - 1) (budget c)"
  by (auto simp: execute_insert_def Let_def split: sum.splits if_splits)

lemma execute_insert_healthy:
  "budget c = None \<Longrightarrow> insert_rows (working c) ps = Inr table \<Longrightarrow>
   execute_insert c ps = (Inr (), c\<lparr>statements := statements c @ [ps], working := table\<rparr>)"
  by (simp add: execute_insert_def Let_def)

subsection \<open>The loop over the batches\<close>

lemma insert_batches_committed:
  "committed (snd (insert_batches c tuples B starts)) = committed c"
proof (induction starts arbitrary: c)
  case Nil
  show ?case by simp
next
  case (Cons i starts)
  obtain r c1 where e: "execute_insert c (slice tuples i (i + B)) = (r, c1)"
    by (cases "execute_insert c (slice tuples i (i + B))")
  have c1: "committed c1 = committed c"
    using execute_insert_committed [of c "slice tuples i (i + B)"] e by simp
  show ?case
  proof (cases r)
    case (Inl err)
    with e c1 show ?thesis by simp
  next
    case (Inr u)
    with e c1 Cons.IH [of c1] show ?thesis by simp
  qed
qed

lemma insert_batches_ok:
  "insert_batches c tuples B starts = (Inr u, c') \<Longrightarrow>
   statements c' = statements c @ map (\<lambda>i. slice tuples i (i + B)) starts
   \<and> set (map identity_key (working c)) \<subseteq> set (map identity_key (working c'))
   \<and> (\<forall>i\<in>set starts. \<forall>p\<in>set (slice tuples i (i + B)).
         \<exists>r. not_null p = Some r \<and> identity_key r \<in> set (map identity_key (working c')))
   \<and> (distinct (map identity_key (working c)) \<longrightarrow> distinct (map identity_key (working c')))"
proof (induction starts arbitrary: c)
  case Nil
  then show ?case by simp
next
  case (Cons i starts)
  obtain r c1 where e: "execute_insert c (slice tuples i (i + B)) = (r, c1)"
    by (cases "execute_insert c (slice tuples i (i + B))")
  from Cons.prems e obtain v where r: "r = Inr v" by (cases r) auto
  with Cons.prems e have rest: "insert_batches c1 tuples B starts = (Inr u, c')" by simp
  note ih = Cons.IH [OF rest]
  have st: "statements c1 = statements c @ [slice tuples i (i + B)]"
    using execute_insert_statements [of c "slice tuples i (i + B)"] e by simp
  have ins: "insert_rows (working c) (slice tuples i (i + B)) = Inr (working c1)"
    using execute_insert_ok e r by blast
  note k = insert_rows_keys [OF ins]
  note d = insert_rows_distinct [OF ins]
  have s1: "statements c' = statements c @ map (\<lambda>i. slice tuples i (i + B)) (i # starts)"
    using ih st by simp
  have s2: "set (map identity_key (working c)) \<subseteq> set (map identity_key (working c'))"
    using ih k by blast
  have s3: "\<forall>j\<in>set (i # starts). \<forall>p\<in>set (slice tuples j (j + B)).
         \<exists>r. not_null p = Some r \<and> identity_key r \<in> set (map identity_key (working c'))"
  proof (intro ballI)
    fix j p assume j: "j \<in> set (i # starts)" and p: "p \<in> set (slice tuples j (j + B))"
    show "\<exists>r. not_null p = Some r \<and> identity_key r \<in> set (map identity_key (working c'))"
    proof (cases "j \<in> set starts")
      case True
      with ih p show ?thesis by blast
    next
      case False
      with j have "j = i" by simp
      with p k obtain r where "not_null p = Some r"
          "identity_key r \<in> set (map identity_key (working c1))" by blast
      with ih show ?thesis by blast
    qed
  qed
  have s4: "distinct (map identity_key (working c)) \<longrightarrow> distinct (map identity_key (working c'))"
    using ih d by blast
  show ?case by (intro conjI s1 s2 s3 s4)
qed

lemma insert_batches_fail:
  "insert_batches c tuples B starts = (Inl e, c') \<Longrightarrow>
   working c' = committed c
   \<and> (\<exists>k<length starts.
        statements c' = statements c @ map (\<lambda>i. slice tuples i (i + B)) (take (Suc k) starts))"
proof (induction starts arbitrary: c)
  case Nil
  then show ?case by simp
next
  case (Cons i starts)
  obtain r c1 where e: "execute_insert c (slice tuples i (i + B)) = (r, c1)"
    by (cases "execute_insert c (slice tuples i (i + B))")
  have st: "statements c1 = statements c @ [slice tuples i (i + B)]"
    using execute_insert_statements [of c "slice tuples i (i + B)"] e by simp
  have cm: "committed c1 = committed c"
    using execute_insert_committed [of c "slice tuples i (i + B)"] e by simp
  show ?case
  proof (cases r)
    case (Inl err)
    with Cons.prems e have c': "c' = c1" by simp
    have w: "working c1 = committed c" using execute_insert_fail e Inl by blast
    have s: "statements c1 = statements c @ map (\<lambda>i. slice tuples i (i + B)) (take (Suc 0) (i # starts))"
      using st by simp
    have "0 < length (i # starts)" by simp
    with s have "\<exists>k<length (i # starts).
        statements c1 = statements c @ map (\<lambda>i. slice tuples i (i + B)) (take (Suc k) (i # starts))"
      by blast
    with w show ?thesis unfolding c' by (rule conjI)
  next
    case (Inr v)
    with Cons.prems e have rest: "insert_batches c1 tuples B starts = (Inl e, c')" by simp
    from Cons.IH [OF rest] obtain k where k: "working c' = committed c1" "k < length starts"
      "statements c' = statements c1 @ map (\<lambda>i. slice tuples i (i + B)) (take (Suc k) starts)"
      by blast
    have s: "statements c' = statements c @ map (\<lambda>i. slice tuples i (i + B)) (take (Suc (Suc k)) (i # starts))"
      using k(3) st by simp
    have "Suc k < length (i # starts)" using k(2) by simp
    with s have "\<exists>k<length (i # starts).
        statements c' = statements c @ map (\<lambda>i. slice tuples i (i + B)) (take (Suc k) (i # starts))"
      by blast
    moreover have "working c' = committed c" using k(1) cm by simp
    ultimately show ?thesis by (intro conjI)
  qed
qed

lemma insert_batches_present:
  "budget c = None \<Longrightarrow>
   \<forall>i\<in>set starts. \<forall>p\<in>set (slice tuples i (i + B)).
      \<exists>r. not_null p = Some r \<and> identity_key r \<in> set (map identity_key (working c))
   \<Longrightarrow> insert_batches c tuples B starts =
       (Inr (), c\<lparr>statements := statements c @ map (\<lambda>i. slice tuples i (i + B)) starts\<rparr>)"
proof (induction starts arbitrary: c)
  case Nil
  show ?case by simp
next
  case (Cons i starts)
  let ?ps = "slice tuples i (i + B)"
  let ?c1 = "c\<lparr>statements := statements c @ [?ps], working := working c\<rparr>"
  have "insert_rows (working c) ?ps = Inr (working c)"
    using Cons.prems(2) by (intro insert_rows_present) simp
  then have e: "execute_insert c ?ps = (Inr (), ?c1)"
    by (rule execute_insert_healthy [OF Cons.prems(1)])
  have "insert_batches ?c1 tuples B starts =
       (Inr (), ?c1\<lparr>statements := statements ?c1 @ map (\<lambda>i. slice tuples i (i + B)) starts\<rparr>)"
    using Cons.prems by (intro Cons.IH) simp_all
  with e show ?case by simp
qed

subsection \<open>The batched loader\<close>

lemma range3_empty: "B \<noteq> 0 \<Longrightarrow> range3 0 0 B = Inr []"
proof (cases "0 < B")
  case True
  then have "(B - 1) div B = 0" by (simp add: div_pos_pos_trivial)
  with True show ?thesis by (simp add: range3_def)
next
  case False
  assume "B \<noteq> 0"
  with False have neg: "B < 0" by simp
  then have "(- B - 1) div (- B) = 0" by (simp add: div_pos_pos_trivial)
  with neg show ?thesis by (simp add: range3_def)
qed

lemma bulk_insert_pos:
  assumes "0 < B"
  shows "\<exists>starts. map (\<lambda>i. slice (map to_tuple es) i (i + B)) starts = chunks (nat B) (map to_tuple es)
      \<and> bulk_insert c es B =
         (case insert_batches c (map to_tuple es) B starts of
            (Inl e, c') \<Rightarrow> (Inl e, c')
          | (Inr u, c') \<Rightarrow> (Inr (), commit c'))"
proof -
  obtain starts where s: "range3 0 (int (length (map to_tuple es))) B = Inr starts"
    using assms by (simp add: range3_def)
  have "map (\<lambda>i. slice (map to_tuple es) i (i + B)) starts = chunks (nat B) (map to_tuple es)"
    by (rule range3_chunks [OF assms s])
  moreover have "bulk_insert c es B =
         (case insert_batches c (map to_tuple es) B starts of
            (Inl e, c') \<Rightarrow> (Inl e, c')
          | (Inr u, c') \<Rightarrow> (Inr (), commit c'))"
    using s by (simp add: bulk_insert_def Let_def)
  ultimately show ?thesis by blast
qed

lemma bulk_insert_fail_committed:
  assumes "bulk_insert c es B = (Inl e, c')"
  shows "committed c' = committed c"
proof (cases "range3 0 (int (length (map to_tuple es))) B")
  case (Inl err)
  with assms show ?thesis by (simp add: bulk_insert_def Let_def)
next
  case (Inr starts)
  obtain r c1 where ib: "insert_batches c (map to_tuple es) B starts = (r, c1)"
    by (cases "insert_batches c (map to_tuple es) B starts")
  have cm: "committed c1 = committed c"
    using insert_batches_committed [of c "map to_tuple es" B starts] ib by simp
  show ?thesis
  proof (cases r)
    case (Inl err)
    with assms Inr ib have "c' = c1" by (simp add: bulk_insert_def Let_def)
    with cm show ?thesis by simp
  next
    case r: (Inr u)
    with assms Inr ib show ?thesis by (simp add: bulk_insert_def Let_def)
  qed
qed

lemma not_null_malformed:
  "surname e = None \<or> given_name e = None \<Longrightarrow> not_null (to_tuple e) = None"
  by (cases "surname e") (auto simp: to_tuple_def)

text \<open>
  Claim C9. With an empty list, \<open>bulk_insert\<close> returns without an exception, sends no
  statement and leaves the rows of the table as they are: the session is unchanged but
  for the commit, which on a session without pending changes changes nothing.
\<close>

theorem bulk_insert_empty_list:
  "B \<noteq> 0 \<Longrightarrow>
     bulk_insert c [] B = (Inr (), commit c)
     \<and> statements (commit c) = statements c
     \<and> working (commit c) = working c
     \<and> committed (commit c) = working c
     \<and> bulk_insert (get_conn table faults) [] B = (Inr (), get_conn table faults)"
  by (simp add: bulk_insert_def range3_empty commit_def get_conn_def)

theorem bulk_insert_empty_list_witness:
  "BATCH_SIZE \<noteq> 0
   \<and> bulk_insert (get_conn [] None) [] BATCH_SIZE = (Inr (), get_conn [] None)
   \<and> statements (commit (get_conn [] None)) = []"
proof -
  have h: "BATCH_SIZE \<noteq> 0" by (simp add: BATCH_SIZE_def)
  note T = bulk_insert_empty_list [OF h, of "get_conn [] None" "[]" None]
  have a: "bulk_insert (get_conn [] None) [] BATCH_SIZE = (Inr (), get_conn [] None)"
    using T by blast
  have b: "statements (commit (get_conn [] None)) = []"
    using T by (simp add: get_conn_def)
  show ?thesis by (intro conjI h a b)
qed

lemma execute_insert_budget_None:
  "budget c = None \<Longrightarrow> execute_insert c ps = (r, c') \<Longrightarrow>
   budget c' = None \<and> (\<forall>e. r = Inl e \<longrightarrow> e = NotNullViolation)"
  by (auto simp: execute_insert_def Let_def split: sum.splits dest: insert_rows_error)

lemma insert_batches_budget_None:
  "budget c = None \<Longrightarrow> insert_batches c tuples B starts = (r, c') \<Longrightarrow>
   budget c' = None \<and> (\<forall>e. r = Inl e \<longrightarrow> e = NotNullViolation)"
proof (induction starts arbitrary: c)
  case Nil
  then show ?case by auto
next
  case (Cons i starts)
  obtain r1 c1 where e: "execute_insert c (slice tuples i (i + B)) = (r1, c1)"
    by (cases "execute_insert c (slice tuples i (i + B))")
  note b = execute_insert_budget_None [OF Cons.prems(1) e]
  show ?case
  proof (cases r1)
    case (Inl err)
    with Cons.prems(2) e have "r = r1" "c' = c1" by simp_all
    with b show ?thesis by simp
  next
    case (Inr v)
    with Cons.prems(2) e have "insert_batches c1 tuples B starts = (r, c')" by simp
    with b show ?thesis by (intro Cons.IH) simp_all
  qed
qed

text \<open>
  Claim C4. When one record of the list has no surname or no given name, \<open>bulk_insert\<close>
  raises, for every batch size that is not negative, and the committed rows are those
  from before the call: no record of the call is kept. On a connection that is not lost
  and with a positive batch size, the exception is the \<^verbatim>\<open>NOT NULL\<close> violation of the
  table.
\<close>

theorem bulk_insert_malformed_fails:
  assumes "0 \<le> B" and "e \<in> set employees" and "surname e = None \<or> given_name e = None"
  shows "\<exists>err c'. bulk_insert c employees B = (Inl err, c') \<and> committed c' = committed c
           \<and> (0 < B \<and> budget c = None \<longrightarrow> err = NotNullViolation)"
proof (cases "B = 0")
  case True
  then show ?thesis by (simp add: bulk_insert_def range3_def)
next
  case False
  with assms(1) have pos: "0 < B" by simp
  let ?ts = "map to_tuple employees"
  from bulk_insert_pos [OF pos, of employees c] obtain starts where
    ch: "map (\<lambda>i. slice ?ts i (i + B)) starts = chunks (nat B) ?ts" and
    bi: "bulk_insert c employees B =
         (case insert_batches c ?ts B starts of
            (Inl e, c') \<Rightarrow> (Inl e, c')
          | (Inr u, c') \<Rightarrow> (Inr (), commit c'))" by blast
  obtain r c1 where ib: "insert_batches c ?ts B starts = (r, c1)"
    by (cases "insert_batches c ?ts B starts")
  have "\<exists>err. r = Inl err"
  proof (cases r)
    case (Inl err)
    then show ?thesis by blast
  next
    case (Inr u)
    with ib have ok: "insert_batches c ?ts B starts = (Inr u, c1)" by simp
    have "to_tuple e \<in> set (concat (chunks (nat B) ?ts))"
      using assms(2) pos by (simp add: concat_chunks)
    then obtain i where i: "i \<in> set starts" "to_tuple e \<in> set (slice ?ts i (i + B))"
      unfolding ch [symmetric] by auto
    with insert_batches_ok [OF ok] obtain x where "not_null (to_tuple e) = Some x" by blast
    with not_null_malformed [OF assms(3)] show ?thesis by simp
  qed
  then obtain err where r: "r = Inl err" by blast
  with bi ib have res: "bulk_insert c employees B = (Inl err, c1)" by simp
  have cm: "committed c1 = committed c" by (rule bulk_insert_fail_committed [OF res])
  have kind: "0 < B \<and> budget c = None \<longrightarrow> err = NotNullViolation"
    using insert_batches_budget_None [OF _ ib] r by blast
  from res cm kind show ?thesis by blast
qed

theorem bulk_insert_malformed_fails_witness:
  "(0::int) \<le> 1
   \<and> sample_null \<in> set [sample_a, sample_null]
   \<and> (surname sample_null = None \<or> given_name sample_null = None)
   \<and> (\<exists>err c'. bulk_insert (get_conn [] None) [sample_a, sample_null] 1 = (Inl err, c')
         \<and> committed c' = committed (get_conn [] None)
         \<and> (0 < (1::int) \<and> budget (get_conn [] None) = None \<longrightarrow> err = NotNullViolation))
   \<and> fst (bulk_insert (get_conn [] None) [sample_a, sample_null] 1) = Inl NotNullViolation
   \<and> committed (snd (bulk_insert (get_conn [] None) [sample_a, sample_null] 1)) = []"
proof -
  have h1: "(0::int) \<le> 1" by simp
  have h2: "sample_null \<in> set [sample_a, sample_null]" by simp
  have h3: "surname sample_null = None \<or> given_name sample_null = None"
    by (simp add: sample_null_def)
  note T = bulk_insert_malformed_fails [OF h1 h2 h3, of "get_conn [] None"]
  have e1: "fst (bulk_insert (get_conn [] None) [sample_a, sample_null] 1) = Inl NotNullViolation"
    by code_simp
  have e2: "committed (snd (bulk_insert (get_conn [] None) [sample_a, sample_null] 1)) = []"
    by code_simp
  show ?thesis by (intro conjI h1 h2 h3 T e1 e2)
qed

text \<open>
  Claim C3, as the code has it. For a positive batch size \<open>bulk_insert\<close> sends one insert
  statement per chunk of the partition into chunks of at most \<open>B\<close> tuples, and commits
  once, after the last chunk. When the call returns, the statements sent are the chunks
  in order and the committed rows are the rows of the transaction. When the call raises
  at a chunk, the committed rows are those from before the call, whatever number of
  chunks went through before. A list of at most \<open>B\<close> records is sent as at most one chunk.
\<close>

theorem bulk_insert_commits_once:
  assumes "0 < B"
  shows "(\<forall>u c'. bulk_insert c es B = (Inr u, c') \<longrightarrow>
             statements c' = statements c @ chunks (nat B) (map to_tuple es)
             \<and> committed c' = working c')
       \<and> (\<forall>e c'. bulk_insert c es B = (Inl e, c') \<longrightarrow>
             committed c' = committed c \<and> working c' = committed c
             \<and> (\<exists>k<length (chunks (nat B) (map to_tuple es)).
                   statements c' = statements c @ take (Suc k) (chunks (nat B) (map to_tuple es))))
       \<and> concat (chunks (nat B) (map to_tuple es)) = map to_tuple es
       \<and> (\<forall>ch\<in>set (chunks (nat B) (map to_tuple es)). ch \<noteq> [] \<and> length ch \<le> nat B)
       \<and> (int (length es) \<le> B \<longrightarrow> length (chunks (nat B) (map to_tuple es)) \<le> 1)"
proof -
  let ?ts = "map to_tuple es"
  from bulk_insert_pos [OF assms, of es c] obtain starts where
    ch: "map (\<lambda>i. slice ?ts i (i + B)) starts = chunks (nat B) ?ts" and
    bi: "bulk_insert c es B =
         (case insert_batches c ?ts B starts of
            (Inl e, c') \<Rightarrow> (Inl e, c')
          | (Inr u, c') \<Rightarrow> (Inr (), commit c'))" by blast
  obtain r c1 where ib: "insert_batches c ?ts B starts = (r, c1)"
    by (cases "insert_batches c ?ts B starts")
  have len: "length starts = length (chunks (nat B) ?ts)"
    using arg_cong [OF ch, of length] by simp
  have ok: "\<forall>u c'. bulk_insert c es B = (Inr u, c') \<longrightarrow>
             statements c' = statements c @ chunks (nat B) ?ts \<and> committed c' = working c'"
  proof (intro allI impI)
    fix u c' assume a: "bulk_insert c es B = (Inr u, c')"
    have "\<exists>v. r = Inr v \<and> c' = commit c1"
    proof (cases r)
      case (Inl err)
      with a bi ib show ?thesis by simp
    next
      case (Inr v)
      with a bi ib show ?thesis by simp
    qed
    then obtain v where r: "r = Inr v" and c': "c' = commit c1" by blast
    from ib r have "statements c1 = statements c @ map (\<lambda>i. slice ?ts i (i + B)) starts"
      using insert_batches_ok by blast
    with ch c' show "statements c' = statements c @ chunks (nat B) ?ts \<and> committed c' = working c'"
      by (simp add: commit_def)
  qed
  have fail: "\<forall>e c'. bulk_insert c es B = (Inl e, c') \<longrightarrow>
             committed c' = committed c \<and> working c' = committed c
             \<and> (\<exists>k<length (chunks (nat B) ?ts).
                   statements c' = statements c @ take (Suc k) (chunks (nat B) ?ts))"
  proof (intro allI impI)
    fix e c' assume a: "bulk_insert c es B = (Inl e, c')"
    have "r = Inl e \<and> c' = c1"
    proof (cases r)
      case (Inl err)
      with a bi ib show ?thesis by simp
    next
      case (Inr v)
      with a bi ib show ?thesis by simp
    qed
    then have r: "r = Inl e" and c': "c' = c1" by simp_all
    from insert_batches_fail [of c ?ts B starts e c1] ib r obtain k where
      k: "working c1 = committed c" "k < length starts"
         "statements c1 = statements c @ map (\<lambda>i. slice ?ts i (i + B)) (take (Suc k) starts)"
      by blast
    have "map (\<lambda>i. slice ?ts i (i + B)) (take (Suc k) starts) = take (Suc k) (chunks (nat B) ?ts)"
      by (simp only: ch [symmetric] take_map)
    with k(3) have "statements c1 = statements c @ take (Suc k) (chunks (nat B) ?ts)"
      by simp
    moreover have "k < length (chunks (nat B) ?ts)" using k(2) len by simp
    ultimately have "\<exists>k<length (chunks (nat B) ?ts).
                   statements c' = statements c @ take (Suc k) (chunks (nat B) ?ts)"
      unfolding c' by blast
    moreover have "committed c' = committed c" by (rule bulk_insert_fail_committed [OF a])
    moreover have "working c' = committed c" using k(1) c' by simp
    ultimately show "committed c' = committed c \<and> working c' = committed c
             \<and> (\<exists>k<length (chunks (nat B) ?ts).
                   statements c' = statements c @ take (Suc k) (chunks (nat B) ?ts))"
      by (intro conjI)
  qed
  have cc: "concat (chunks (nat B) ?ts) = ?ts" using assms by (simp add: concat_chunks)
  have bd: "\<forall>ch\<in>set (chunks (nat B) ?ts). ch \<noteq> [] \<and> length ch \<le> nat B"
    using chunks_bounded by blast
  have one: "int (length es) \<le> B \<longrightarrow> length (chunks (nat B) ?ts) \<le> 1"
  proof
    assume "int (length es) \<le> B"
    then have "length ?ts \<le> nat B" by simp
    then show "length (chunks (nat B) ?ts) \<le> 1" by (rule chunks_single)
  qed
  show ?thesis by (intro conjI ok fail cc bd one)
qed


theorem bulk_insert_commits_once_witness:
  "0 < (1::int)
   \<and> fst (bulk_insert (get_conn [] None) [sample_a, sample_b] 1) = Inr ()
   \<and> statements (snd (bulk_insert (get_conn [] None) [sample_a, sample_b] 1))
       = statements (get_conn [] None) @ chunks (nat 1) (map to_tuple [sample_a, sample_b])
   \<and> committed (snd (bulk_insert (get_conn [] None) [sample_a, sample_b] 1))
       = working (snd (bulk_insert (get_conn [] None) [sample_a, sample_b] 1))
   \<and> length (committed (snd (bulk_insert (get_conn [] None) [sample_a, sample_b] 1))) = 2
   \<and> fst (bulk_insert (get_conn [] (Some 1)) [sample_a, sample_b] 1) = Inl OperationalError
   \<and> committed (snd (bulk_insert (get_conn [] (Some 1)) [sample_a, sample_b] 1))
       = committed (get_conn [] (Some 1))
   \<and> int (length [sample_a]) \<le> 1
   \<and> length (chunks (nat 1) (map to_tuple [sample_a])) \<le> 1"
proof -
  have h: "0 < (1::int)" by simp
  let ?ok = "bulk_insert (get_conn [] None) [sample_a, sample_b] 1"
  let ?ko = "bulk_insert (get_conn [] (Some 1)) [sample_a, sample_b] 1"
  note T1 = bulk_insert_commits_once [OF h, of "get_conn [] None" "[sample_a, sample_b]"]
  note T2 = bulk_insert_commits_once [OF h, of "get_conn [] (Some 1)" "[sample_a, sample_b]"]
  note T3 = bulk_insert_commits_once [OF h, of "get_conn [] None" "[sample_a]"]
  have f1: "fst ?ok = Inr ()" by code_simp
  then have e1: "?ok = (Inr (), snd ?ok)" by (simp add: prod_eq_iff)
  have s1: "statements (snd ?ok)
       = statements (get_conn [] None) @ chunks (nat 1) (map to_tuple [sample_a, sample_b])
       \<and> committed (snd ?ok) = working (snd ?ok)"
    using T1 e1 by blast
  have n1: "length (committed (snd ?ok)) = 2" by code_simp
  have f2: "fst ?ko = Inl OperationalError" by code_simp
  then have e2: "?ko = (Inl OperationalError, snd ?ko)" by (simp add: prod_eq_iff)
  have s2: "committed (snd ?ko) = committed (get_conn [] (Some 1))"
    using T2 e2 by blast
  have h3: "int (length [sample_a]) \<le> 1" by simp
  have s3: "length (chunks (nat 1) (map to_tuple [sample_a])) \<le> 1"
    using T3 h3 by blast
  show ?thesis
    by (intro conjI h f1 s1 [THEN conjunct1] s1 [THEN conjunct2] n1 f2 s2 h3 s3)
qed

text \<open>
  The claim as the specification words it (a commit per chunk) does not hold. With a
  batch size of 1 and a connection that is lost at the second statement, the first chunk
  goes through, the second raises, and no row is committed: the completed chunk is lost
  with the one in flight.
\<close>

theorem bulk_insert_loses_completed_chunk:
  "fst (execute_insert (get_conn [] (Some 1)) [to_tuple sample_a]) = Inr ()
   \<and> length (working (snd (execute_insert (get_conn [] (Some 1)) [to_tuple sample_a]))) = 1
   \<and> fst (bulk_insert (get_conn [] (Some 1)) [sample_a, sample_b] 1) = Inl OperationalError
   \<and> statements (snd (bulk_insert (get_conn [] (Some 1)) [sample_a, sample_b] 1))
       = [[to_tuple sample_a], [to_tuple sample_b]]
   \<and> committed (snd (bulk_insert (get_conn [] (Some 1)) [sample_a, sample_b] 1)) = []"
proof -
  have a: "fst (execute_insert (get_conn [] (Some 1)) [to_tuple sample_a]) = Inr ()"
    by code_simp
  have b: "length (working (snd (execute_insert (get_conn [] (Some 1)) [to_tuple sample_a]))) = 1"
    by code_simp
  have c: "fst (bulk_insert (get_conn [] (Some 1)) [sample_a, sample_b] 1) = Inl OperationalError"
    by code_simp
  have d: "statements (snd (bulk_insert (get_conn [] (Some 1)) [sample_a, sample_b] 1))
       = [[to_tuple sample_a], [to_tuple sample_b]]"
    by code_simp
  have e: "committed (snd (bulk_insert (get_conn [] (Some 1)) [sample_a, sample_b] 1)) = []"
    by code_simp
  show ?thesis by (intro conjI a b c d e)
qed

end
